theory Spec2Isabelle
  imports Complex_Main
begin

section \<open>Values, exceptions and collaborators\<close>

text \<open>
  The evaluation harness of \<^verbatim>\<open>DQN-code/common.py\<close> is dynamically typed glue code.
  Python values that flow through it (the entries of the environment's info dictionary,
  the tuple returned by \<^verbatim>\<open>play_one_episode\<close>, the cells of the result table) are values
  of \<open>pyval\<close>; a tuple or a list is a \<open>pyval list\<close>. Rewards and action values are
  Python floats; they are modelled by real numbers, so the sums and means below are
  exact and carry no rounding. The one place where the rounding of binary64 decides the
  outcome, the budget update of \<^verbatim>\<open>Evaluator._trigger\<close>, is modelled bit by bit.
\<close>

datatype pyval = PNone | PInt int | PNum real | PStr string | PList "pyval list"

text \<open>
  Exceptions are values. \<open>RuntimeError\<close> carries its message, \<open>KeyError\<close> the missing
  key; \<open>OtherError\<close> stands for any exception class that is not listed and is not a
  subclass of \<^verbatim>\<open>RuntimeError\<close>.
\<close>

datatype error =
    RuntimeError string
  | ValueError
  | KeyError string
  | IndexError
  | TypeError
  | AssertionError
  | OverflowError
  | OtherError string

type_synonym info_dict = "string \<rightharpoonup> pyval"

text \<open>
  The environment collaborator: \<^verbatim>\<open>reset()\<close>, \<^verbatim>\<open>step(act, q_values)\<close> and \<^verbatim>\<open>render()\<close>
  act on the player's state \<open>'es\<close>, and each of them may raise.
\<close>

record ('es, 'ob) env =
  env_reset :: "'es \<Rightarrow> error + ('ob \<times> 'es)"
  env_step :: "'es \<Rightarrow> nat \<Rightarrow> real list \<Rightarrow> error + (('ob \<times> real \<times> bool \<times> info_dict) \<times> 'es)"
  env_render :: "'es \<Rightarrow> error + 'es"

text \<open>
  The predictor collaborator maps a batch of observations to a list of output tensors,
  each a batch of rows of action values. It is a Python callable, so it may carry a
  state \<open>'fs\<close> of its own and may raise.
\<close>

type_synonym ('fs, 'ob) predictor = "'fs \<Rightarrow> 'ob list \<Rightarrow> error + (real list list list \<times> 'fs)"

subsection \<open>Indexing, dictionary lookup, tuple unpacking\<close>

text \<open>Sequencing of calls that may raise: the first exception ends the computation.\<close>

definition ebind :: "error + 'a \<Rightarrow> ('a \<Rightarrow> error + 'b) \<Rightarrow> error + 'b" where
  "ebind m f = (case m of Inl e \<Rightarrow> Inl e | Inr x \<Rightarrow> f x)"

definition first_item :: "'a list \<Rightarrow> error + 'a" where
  \<comment> \<open>\<^verbatim>\<open>xs[0]\<close>\<close>
  "first_item xs = (case xs of [] \<Rightarrow> Inl IndexError | x # _ \<Rightarrow> Inr x)"

definition subscript :: "pyval \<Rightarrow> nat \<Rightarrow> error + pyval" where
  \<comment> \<open>\<^verbatim>\<open>v[i]\<close> for a non-negative literal index\<close>
  "subscript v i =
     (case v of
        PList xs \<Rightarrow> (if i < length xs then Inr (xs ! i) else Inl IndexError)
      | PStr s \<Rightarrow> (if i < length s then Inr (PStr [s ! i]) else Inl IndexError)
      | _ \<Rightarrow> Inl TypeError)"

definition dict_get :: "info_dict \<Rightarrow> string \<Rightarrow> error + pyval" where
  \<comment> \<open>\<^verbatim>\<open>info[k]\<close>\<close>
  "dict_get d k = (case d k of None \<Rightarrow> Inl (KeyError k) | Some v \<Rightarrow> Inr v)"

definition unpack :: "nat \<Rightarrow> pyval list \<Rightarrow> error + pyval list" where
  \<comment> \<open>\<^verbatim>\<open>a, b, ... = t\<close> with \<open>n\<close> names on the left: the tuple must have exactly \<open>n\<close> items\<close>
  "unpack n t = (if length t = n then Inr t else Inl ValueError)"

text \<open>
  \<^verbatim>\<open>q_values.argmax()\<close>: the index of the first occurrence of the maximum; the argmax of
  an empty array raises \<^verbatim>\<open>ValueError\<close>.
\<close>

fun argmax_scan :: "real list \<Rightarrow> nat \<Rightarrow> nat \<Rightarrow> real \<Rightarrow> nat" where
  "argmax_scan [] i best bv = best"
| "argmax_scan (x # xs) i best bv =
     (if bv < x then argmax_scan xs (Suc i) i x else argmax_scan xs (Suc i) best bv)"

definition argmax :: "real list \<Rightarrow> error + nat" where
  "argmax q = (case q of [] \<Rightarrow> Inl ValueError | x # xs \<Rightarrow> Inr (argmax_scan xs 1 0 x))"

section \<open>\<^verbatim>\<open>play_one_episode\<close>\<close>

text \<open>
  The inner function \<^verbatim>\<open>predict(s)\<close>: \<^verbatim>\<open>func(s[None, :, :, :])[0][0]\<close> feeds a batch holding
  the one observation and takes the first row of the first output; the action is its
  argmax. The epsilon-greedy branch is commented out in the source.
\<close>

definition predict :: "('fs, 'ob) predictor \<Rightarrow> 'fs \<Rightarrow> 'ob \<Rightarrow> error + ((nat \<times> real list) \<times> 'fs)" where
  "predict func fs s =
     ebind (func fs [s]) (\<lambda>(outputs, fs').
     ebind (first_item outputs) (\<lambda>batch.
     ebind (first_item batch) (\<lambda>q_values.
     ebind (argmax q_values) (\<lambda>act.
       Inr ((act, q_values), fs')))))"

text \<open>
  The tuple of line 54, built left to right: the first missing key raises.
\<close>

definition episode_tuple :: "real \<Rightarrow> info_dict \<Rightarrow> error + pyval list" where
  "episode_tuple sum_r info =
     ebind (dict_get info ''filename'') (\<lambda>filename.
     ebind (dict_get info ''distError'') (\<lambda>distError.
     ebind (dict_get info ''loc'') (\<lambda>loc.
     ebind (dict_get info ''target_loc'') (\<lambda>target_loc.
     ebind (dict_get info ''spacing'') (\<lambda>spacing.
     ebind (dict_get info ''start_pos'') (\<lambda>start_pos.
       Inr [PNum sum_r, filename, distError, loc, target_loc, spacing, start_pos]))))))"

text \<open>
  The \<^verbatim>\<open>while True\<close> loop. It need not terminate, so it lives in the option monad:
  \<open>None\<close> is an episode that never ends, \<open>Some (Inl e)\<close> an exception that leaves the
  function, \<open>Some (Inr (t, fs, es))\<close> the returned tuple with the states of predictor
  and player after the episode.
\<close>

partial_function (option) episode_loop ::
  "('es, 'ob) env \<Rightarrow> ('fs, 'ob) predictor \<Rightarrow> bool \<Rightarrow> 'fs \<Rightarrow> 'es \<Rightarrow> 'ob \<Rightarrow> real
     \<Rightarrow> (error + (pyval list \<times> 'fs \<times> 'es)) option"
where
  "episode_loop env func render fs es ob sum_r =
     (case predict func fs ob of
        Inl e \<Rightarrow> Some (Inl e)
      | Inr ((act, q_values), fs1) \<Rightarrow>
          (case env_step env es act q_values of
             Inl e \<Rightarrow> Some (Inl e)
           | Inr ((ob1, r, isOver, info), es1) \<Rightarrow>
               (case (if render then env_render env es1 else Inr es1) of
                  Inl e \<Rightarrow> Some (Inl e)
                | Inr es2 \<Rightarrow>
                    if isOver
                    then Some (case episode_tuple (sum_r + r) info of
                                 Inl e \<Rightarrow> Inl e
                               | Inr t \<Rightarrow> Inr (t, fs1, es2))
                    else episode_loop env func render fs1 es2 ob1 (sum_r + r))))"

definition play_one_episode ::
  "('es, 'ob) env \<Rightarrow> ('fs, 'ob) predictor \<Rightarrow> bool \<Rightarrow> 'fs \<Rightarrow> 'es
     \<Rightarrow> (error + (pyval list \<times> 'fs \<times> 'es)) option"
where
  "play_one_episode env func render fs es =
     (case env_reset env es of
        Inl e \<Rightarrow> Some (Inl e)
      | Inr (ob, es0) \<Rightarrow> episode_loop env func render fs es0 ob 0)"

section \<open>\<^verbatim>\<open>play_n_episodes\<close>\<close>

definition header_row :: "pyval list" where
  "header_row = map PStr
     [''idx_num'', ''filename'', ''score'', ''distance_error'',
      ''final_coordinates_x'', ''final_coordinates_y'', ''final_coordinates_z'',
      ''target_x'', ''target_y'', ''target_z'',
      ''spacing_x'', ''spacing_y'', ''spacing_z'']"

text \<open>
  The log line of lines 73-75 is built with \<^verbatim>\<open>str.format\<close>, which raises on a value
  that does not accept the format specification: \<^verbatim>\<open>{:>15}\<close> is refused by
  \<^verbatim>\<open>None\<close> and by a list, \<^verbatim>\<open>{:>5.2f}\<close> needs a number.
\<close>

definition format_aligned :: "pyval \<Rightarrow> error + unit" where
  "format_aligned v =
     (case v of PStr _ \<Rightarrow> Inr () | PInt _ \<Rightarrow> Inr () | PNum _ \<Rightarrow> Inr () | _ \<Rightarrow> Inl TypeError)"

definition format_fixed :: "pyval \<Rightarrow> error + unit" where
  "format_fixed v =
     (case v of PInt _ \<Rightarrow> Inr () | PNum _ \<Rightarrow> Inr () | PStr _ \<Rightarrow> Inl ValueError | _ \<Rightarrow> Inl TypeError)"

text \<open>
  One pass through the body of the \<^verbatim>\<open>for\<close> loop after the episode has returned its
  tuple \<open>t\<close>: unpack seven names, write the log line, build the row for episode \<open>k\<close>
  (counted from 0).
\<close>

definition episode_row :: "nat \<Rightarrow> pyval list \<Rightarrow> error + pyval list" where
  "episode_row k t =
     ebind (unpack 7 t) (\<lambda>u.
       let score = u ! 0; filename = u ! 1; ditance_error = u ! 2;
           loc = u ! 3; target_loc = u ! 4; spacing = u ! 5
       in
     ebind (format_aligned filename) (\<lambda>_.
     ebind (format_fixed score) (\<lambda>_.
     ebind (format_fixed ditance_error) (\<lambda>_.
     ebind (subscript loc 0) (\<lambda>loc0.
     ebind (subscript loc 1) (\<lambda>loc1.
     ebind (subscript loc 2) (\<lambda>loc2.
     ebind (subscript target_loc 0) (\<lambda>target0.
     ebind (subscript target_loc 1) (\<lambda>target1.
     ebind (subscript target_loc 2) (\<lambda>target2.
     ebind (subscript spacing 0) (\<lambda>spacing0.
     ebind (subscript spacing 1) (\<lambda>spacing1.
     ebind (subscript spacing 2) (\<lambda>spacing2.
       Inr [PInt (int k + 1), filename, score, ditance_error,
            loc0, loc1, loc2, target0, target1, target2,
            spacing0, spacing1, spacing2])))))))))))))"

text \<open>
  \<^verbatim>\<open>for k in range(nr)\<close>: \<open>k\<close> is the current index, the third numeric argument the
  number of passes still to run.
\<close>

fun play_n_loop ::
  "('es, 'ob) env \<Rightarrow> ('fs, 'ob) predictor \<Rightarrow> bool \<Rightarrow> nat \<Rightarrow> nat \<Rightarrow> 'fs \<Rightarrow> 'es \<Rightarrow> pyval list list
     \<Rightarrow> (error + (pyval list list \<times> 'fs \<times> 'es)) option"
where
  "play_n_loop player predfunc render k 0 fs es info_episodes = Some (Inr (info_episodes, fs, es))"
| "play_n_loop player predfunc render k (Suc n) fs es info_episodes =
     (case play_one_episode player predfunc render fs es of
        None \<Rightarrow> None
      | Some (Inl e) \<Rightarrow> Some (Inl e)
      | Some (Inr (t, fs1, es1)) \<Rightarrow>
          (case episode_row k t of
             Inl e \<Rightarrow> Some (Inl e)
           | Inr row \<Rightarrow>
               play_n_loop player predfunc render (Suc k) n fs1 es1 (info_episodes @ [row])))"

definition play_n_episodes ::
  "('es, 'ob) env \<Rightarrow> ('fs, 'ob) predictor \<Rightarrow> int \<Rightarrow> bool \<Rightarrow> 'fs \<Rightarrow> 'es
     \<Rightarrow> (error + (pyval list list \<times> 'fs \<times> 'es)) option"
where
  "play_n_episodes player predfunc nr render fs es =
     play_n_loop player predfunc render 0 (nat nr) fs es [header_row]"

section \<open>\<^verbatim>\<open>eval_with_funcs\<close>\<close>

subsection \<open>The worker thread\<close>

text \<open>
  A worker shares one thing with the thread that started it besides the queues: the stop
  flag of \<^verbatim>\<open>StoppableThread\<close>. The worker reads the flag with \<^verbatim>\<open>self.stopped()\<close>; what
  it reads depends on how far the main thread has come. The readings of one worker are a
  sequence \<open>obs\<close>: \<open>obs c\<close> is the value returned by its \<open>c\<close>-th call of
  \<^verbatim>\<open>self.stopped()\<close>, counted from 0. The counter \<open>c\<close> is part of the worker's state.
\<close>

type_synonym stop_readings = "nat \<Rightarrow> bool"

text \<open>
  \<^verbatim>\<open>Worker.func\<close> (lines 100-103): the predictor handed to \<^verbatim>\<open>play_one_episode\<close>. It raises
  \<^verbatim>\<open>RuntimeError("stopped!")\<close> when the flag is set and calls the wrapped predictor
  otherwise.
\<close>

definition Worker_func ::
  "stop_readings \<Rightarrow> ('fs, 'ob) predictor \<Rightarrow> (nat \<times> 'fs, 'ob) predictor"
where
  "Worker_func obs func = (\<lambda>(c, fs) batch.
     if obs c then Inl (RuntimeError ''stopped!'')
     else ebind (func fs batch) (\<lambda>(outputs, fs'). Inr (outputs, (Suc c, fs'))))"

text \<open>
  Modelled from the spec: \<^verbatim>\<open>StoppableThread.queue_put_stoppable\<close> belongs to the training
  framework and is not part of the sources. The spec says that a worker checks the stop
  flag before each blocking queue put and that a put which would block past a stop signal
  aborts. Both queues are created unbounded (lines 118-119), so a put that is attempted
  succeeds at once: one reading of the flag, and the item is appended unless the flag was
  set. The list is the sequence of items this worker has put so far.
\<close>

definition queue_put_stoppable :: "stop_readings \<Rightarrow> nat \<Rightarrow> pyval list \<Rightarrow> pyval \<Rightarrow> nat \<times> pyval list" where
  "queue_put_stoppable obs c q obj = (if obs c then (Suc c, q) else (Suc c, q @ [obj]))"

text \<open>How a thread's \<^verbatim>\<open>run\<close> method ends: it returns, or an exception leaves it.\<close>

datatype thread_exit = Returned | Raised error

fun is_RuntimeError :: "error \<Rightarrow> bool" where
  "is_RuntimeError (RuntimeError _) = True"
| "is_RuntimeError _ = False"

text \<open>
  The handler of lines 113-114 guards the call of \<^verbatim>\<open>play_one_episode\<close> together with
  the unpacking of its result: a \<^verbatim>\<open>RuntimeError\<close> makes \<^verbatim>\<open>run\<close> return, any other
  exception leaves \<^verbatim>\<open>run\<close>.
\<close>

definition except_RuntimeError :: "error \<Rightarrow> thread_exit" where
  "except_RuntimeError e = (if is_RuntimeError e then Returned else Raised e)"

text \<open>
  The loop of \<^verbatim>\<open>Worker.run\<close> (lines 109-116). \<open>q\<close> and \<open>q_dist\<close> collect what this
  worker has put on the two shared queues. The result \<open>None\<close> is a thread that never
  ends.
\<close>

partial_function (option) worker_loop ::
  "('es, 'ob) env \<Rightarrow> ('fs, 'ob) predictor \<Rightarrow> stop_readings \<Rightarrow> nat \<Rightarrow> 'fs \<Rightarrow> 'es
     \<Rightarrow> pyval list \<Rightarrow> pyval list \<Rightarrow> (thread_exit \<times> pyval list \<times> pyval list) option"
where
  "worker_loop player func obs c fs es q q_dist =
     (if obs c then Some (Returned, q, q_dist)
      else
        (case play_one_episode player (Worker_func obs func) False (Suc c, fs) es of
           None \<Rightarrow> None
         | Some (Inl e) \<Rightarrow> Some (except_RuntimeError e, q, q_dist)
         | Some (Inr (t, (c1, fs1), es1)) \<Rightarrow>
             (case unpack 4 t of
                Inl e \<Rightarrow> Some (except_RuntimeError e, q, q_dist)
              | Inr u \<Rightarrow>
                  (let score = u ! 0; ditance_error = u ! 2;
                       (c2, q') = queue_put_stoppable obs c1 q score;
                       (c3, q_dist') = queue_put_stoppable obs c2 q_dist ditance_error
                   in worker_loop player func obs c3 fs1 es1 q' q_dist'))))"

text \<open>
  \<^verbatim>\<open>Worker.run\<close>: the player is built by the factory inside the thread. The factory is a
  Python function and may hand a different player to each caller; the calls are told
  apart by the index \<open>w\<close> of the calling worker.
\<close>

definition Worker_run ::
  "('es, 'ob) env \<Rightarrow> (nat \<Rightarrow> bool \<Rightarrow> 'fl \<Rightarrow> error + 'es) \<Rightarrow> 'fl \<Rightarrow> nat
     \<Rightarrow> ('fs, 'ob) predictor \<Rightarrow> 'fs \<Rightarrow> stop_readings
     \<Rightarrow> (thread_exit \<times> pyval list \<times> pyval list) option"
where
  "Worker_run player get_player_fn files_list w func fs obs =
     (case get_player_fn w False files_list of
        Inl e \<Rightarrow> Some (Raised e, [], [])
      | Inr es \<Rightarrow> worker_loop player func obs 0 fs es [] [])"

subsection \<open>The statistics counter\<close>

text \<open>
  Modelled from the spec: \<^verbatim>\<open>StatCounter\<close> belongs to the training framework and is not
  part of the sources. The spec describes a running counter fed one value at a time,
  with \<open>average = sum / count\<close> and \<open>max = max(values)\<close>. The counter is the list of the
  values fed so far; the average and the maximum of an empty counter fail (the
  framework asserts that the counter is not empty), and a value that is not a number
  cannot be averaged.
\<close>

type_synonym StatCounter = "pyval list"

definition feed :: "StatCounter \<Rightarrow> pyval \<Rightarrow> StatCounter" where
  "feed stat v = stat @ [v]"

definition count :: "StatCounter \<Rightarrow> nat" where
  "count stat = length stat"

definition number :: "pyval \<Rightarrow> error + real" where
  "number v = (case v of PInt i \<Rightarrow> Inr (of_int i) | PNum x \<Rightarrow> Inr x | _ \<Rightarrow> Inl TypeError)"

fun numbers :: "pyval list \<Rightarrow> error + real list" where
  "numbers [] = Inr []"
| "numbers (v # vs) = ebind (number v) (\<lambda>x. ebind (numbers vs) (\<lambda>xs. Inr (x # xs)))"

definition average :: "StatCounter \<Rightarrow> error + real" where
  "average stat =
     (if stat = [] then Inl AssertionError
      else ebind (numbers stat) (\<lambda>xs. Inr (sum_list xs / real (length xs))))"

definition maximum :: "StatCounter \<Rightarrow> error + real" where
  "maximum stat =
     (if stat = [] then Inl AssertionError
      else ebind (numbers stat) (\<lambda>xs. Inr (foldl max (hd xs) (tl xs))))"

subsection \<open>The calling thread\<close>

text \<open>
  Lines 131-135. \<open>q\<close> and \<open>q_dist\<close> are the items that the workers put on the two
  queues over the whole run, in the order of arrival. \<^verbatim>\<open>q.get()\<close> blocks until an item
  is there; on a queue that stays empty it blocks for ever, which is the result \<open>None\<close>.
\<close>

fun collect ::
  "nat \<Rightarrow> pyval list \<Rightarrow> pyval list \<Rightarrow> StatCounter \<Rightarrow> StatCounter
     \<Rightarrow> (pyval list \<times> pyval list \<times> StatCounter \<times> StatCounter) option"
where
  "collect 0 q q_dist stat dist_stat = Some (q, q_dist, stat, dist_stat)"
| "collect (Suc n) q q_dist stat dist_stat =
     (case q of
        [] \<Rightarrow> None
      | r # q' \<Rightarrow>
          (case q_dist of
             [] \<Rightarrow> None
           | d # q_dist' \<Rightarrow> collect n q' q_dist' (feed stat r) (feed dist_stat d)))"

text \<open>Lines 142-148: after the workers are joined, what is left on a queue is fed too.\<close>

fun drain :: "pyval list \<Rightarrow> StatCounter \<Rightarrow> StatCounter" where
  "drain [] stat = stat"
| "drain (r # q) stat = drain q (feed stat r)"

text \<open>Lines 150-152.\<close>

definition summary :: "StatCounter \<Rightarrow> StatCounter \<Rightarrow> error + (real \<times> real \<times> real \<times> real)" where
  "summary stat dist_stat =
     (if count stat > 0
      then ebind (average stat) (\<lambda>mean_score.
           ebind (maximum stat) (\<lambda>max_score.
           ebind (average dist_stat) (\<lambda>mean_dist.
           ebind (maximum dist_stat) (\<lambda>max_dist.
             Inr (mean_score, max_score, mean_dist, max_dist)))))
      else Inr (0, 0, 0, 0))"

text \<open>
  The calling thread from line 127 on, given everything the workers put on the queues.
\<close>

definition eval_main ::
  "int \<Rightarrow> pyval list \<Rightarrow> pyval list \<Rightarrow> (error + (real \<times> real \<times> real \<times> real)) option"
where
  "eval_main nr_eval q q_dist =
     (case collect (nat nr_eval) q q_dist [] [] of
        None \<Rightarrow> None
      | Some (q', q_dist', stat, dist_stat) \<Rightarrow>
          Some (summary (drain q' stat) (drain q_dist' dist_stat)))"

text \<open>
  The whole function. One worker is started for each predictor (lines 121-126); worker
  \<open>w\<close> reads the stop flag as \<open>obs w\<close> says. \<open>Worker_thread\<close> is the run of the thread
  started for the \<open>w\<close>-th predictor.
\<close>

definition Worker_thread ::
  "('es, 'ob) env \<Rightarrow> (nat \<Rightarrow> bool \<Rightarrow> 'fl \<Rightarrow> error + 'es) \<Rightarrow> 'fl \<Rightarrow> (nat \<Rightarrow> stop_readings)
     \<Rightarrow> nat \<times> ('fs, 'ob) predictor \<times> 'fs
     \<Rightarrow> (thread_exit \<times> pyval list \<times> pyval list) option"
where
  "Worker_thread player get_player_fn files_list obs =
     (\<lambda>(w, (func, fs)). Worker_run player get_player_fn files_list w func fs (obs w))"

text \<open>
  \<^verbatim>\<open>k.join()\<close> returns when the thread has ended, however it ended, and never returns
  for a thread that runs for ever. The items of the workers reach the queues in some
  interleaving; the order of the workers is taken here.
\<close>

definition eval_with_funcs ::
  "('es, 'ob) env \<Rightarrow> (('fs, 'ob) predictor \<times> 'fs) list \<Rightarrow> int
     \<Rightarrow> (nat \<Rightarrow> bool \<Rightarrow> 'fl \<Rightarrow> error + 'es) \<Rightarrow> 'fl \<Rightarrow> (nat \<Rightarrow> stop_readings)
     \<Rightarrow> (error + (real \<times> real \<times> real \<times> real)) option"
where
  "eval_with_funcs player predictors nr_eval get_player_fn files_list obs =
     (case those (map (Worker_thread player get_player_fn files_list obs)
                      (enumerate 0 predictors)) of
        None \<Rightarrow> None
      | Some threads \<Rightarrow>
          eval_main nr_eval (concat (map (\<lambda>(x, q, q_dist). q) threads))
                            (concat (map (\<lambda>(x, q, q_dist). q_dist) threads)))"

section \<open>\<^verbatim>\<open>Evaluator\<close>\<close>

subsection \<open>The product \<^verbatim>\<open>self.eval_episode * 0.94\<close>\<close>






subsection \<open>The callback\<close>




section \<open>The episode as the specification describes it\<close>

text \<open>
  A second description of an episode, in the words of the specification, against which
  \<open>play_one_episode\<close> is compared. An action is greedy for a row of action values when
  no other action has a larger value.
\<close>

definition greedy :: "real list \<Rightarrow> nat \<Rightarrow> bool" where
  "greedy q_values act \<longleftrightarrow> act < length q_values \<and> (\<forall>x \<in> set q_values. x \<le> q_values ! act)"

text \<open>
  \<open>episode player func render fs es ob rs info fs' es'\<close>: starting from observation
  \<open>ob\<close>, with predictor state \<open>fs\<close> and player state \<open>es\<close>, the steps taken with the
  predicted actions yield the rewards \<open>rs\<close>, one for each step; the last step, and no
  step before it, reports that the episode is over, with the info dictionary \<open>info\<close>,
  and leaves the states \<open>fs'\<close> and \<open>es'\<close>. No step raises.
\<close>

inductive episode ::
  "('es, 'ob) env \<Rightarrow> ('fs, 'ob) predictor \<Rightarrow> bool \<Rightarrow> 'fs \<Rightarrow> 'es \<Rightarrow> 'ob
     \<Rightarrow> real list \<Rightarrow> info_dict \<Rightarrow> 'fs \<Rightarrow> 'es \<Rightarrow> bool"
  for player :: "('es, 'ob) env" and func :: "('fs, 'ob) predictor" and render :: bool
where
  last_step:
    "predict func fs ob = Inr ((act, q_values), fs1) \<Longrightarrow>
     env_step player es act q_values = Inr ((ob1, r, True, info), es1) \<Longrightarrow>
     (if render then env_render player es1 else Inr es1) = Inr es2 \<Longrightarrow>
     episode player func render fs es ob [r] info fs1 es2"
| next_step:
    "predict func fs ob = Inr ((act, q_values), fs1) \<Longrightarrow>
     env_step player es act q_values = Inr ((ob1, r, False, info), es1) \<Longrightarrow>
     (if render then env_render player es1 else Inr es1) = Inr es2 \<Longrightarrow>
     episode player func render fs1 es2 ob1 rs info' fs' es' \<Longrightarrow>
     episode player func render fs es ob (r # rs) info' fs' es'"

code_pred episode .

section \<open>A stub player and a stub predictor\<close>

text \<open>
  A deterministic pair used to run the functions above on concrete input. The predictor
  always answers with the action values \<open>[1, 3, 2]\<close>. An episode of the player
  takes two steps; a step is rewarded with 2 when the action is 1 and with 0 otherwise.
\<close>

definition stub_info :: info_dict where
  "stub_info = map_of
     [(''filename'', PStr ''case_07''), (''distError'', PNum 2),
      (''loc'', PList [PInt 4, PInt 5, PInt 6]),
      (''target_loc'', PList [PInt 4, PInt 7, PInt 6]),
      (''spacing'', PList [PNum 1, PNum 1, PNum 2]),
      (''start_pos'', PList [PInt 0, PInt 0, PInt 0])]"

definition stub_player :: "(nat, nat) env" where
  "stub_player =
     \<lparr>env_reset = (\<lambda>es. Inr (0, 0)),
      env_step = (\<lambda>es act q_values.
        Inr ((Suc es, (if act = 1 then 2 else 0), Suc es = 2, stub_info), Suc es)),
      env_render = (\<lambda>es. Inr es)\<rparr>"

definition stub_predictor :: "(unit, nat) predictor" where
  "stub_predictor = (\<lambda>fs batch. Inr ([[[1, 3, 2]]], fs))"

definition stub_tuple :: "pyval list" where
  "stub_tuple =
     [PNum 4, PStr ''case_07'', PNum 2, PList [PInt 4, PInt 5, PInt 6],
      PList [PInt 4, PInt 7, PInt 6], PList [PNum 1, PNum 1, PNum 2],
      PList [PInt 0, PInt 0, PInt 0]]"

definition stub_row :: "int \<Rightarrow> pyval list" where
  "stub_row i =
     [PInt i, PStr ''case_07'', PNum 4, PNum 2, PInt 4, PInt 5, PInt 6,
      PInt 4, PInt 7, PInt 6, PNum 1, PNum 1, PNum 2]"

section \<open>Schedules and players for concrete runs\<close>

text \<open>
  Readings of the stop flag: never set, or set from the \<open>n\<close>-th reading on. A factory
  that hands out the stub player in its initial state. Three variants of the stub
  player: one whose \<^verbatim>\<open>step\<close> raises a \<^verbatim>\<open>RuntimeError\<close>, one whose \<^verbatim>\<open>step\<close> raises an
  exception of another class, and one whose episodes never end.
\<close>

definition never_stopped :: stop_readings where
  "never_stopped = (\<lambda>c. False)"

definition stopped_from :: "nat \<Rightarrow> stop_readings" where
  "stopped_from n = (\<lambda>c. n \<le> c)"

definition no_stop :: "nat \<Rightarrow> stop_readings" where
  "no_stop = (\<lambda>w. never_stopped)"

definition late_stop :: "nat \<Rightarrow> stop_readings" where
  "late_stop = (\<lambda>w. stopped_from (3 + w))"

definition stub_factory :: "nat \<Rightarrow> bool \<Rightarrow> unit \<Rightarrow> error + nat" where
  "stub_factory = (\<lambda>w task files_list. Inr 0)"

definition crashing_player :: "(nat, nat) env" where
  "crashing_player = stub_player\<lparr>env_step := (\<lambda>es act q_values. Inl (RuntimeError ''simulator crashed''))\<rparr>"

definition failing_player :: "(nat, nat) env" where
  "failing_player = stub_player\<lparr>env_step := (\<lambda>es act q_values. Inl (OtherError ''IOError''))\<rparr>"

definition endless_player :: "(nat, nat) env" where
  "endless_player = stub_player\<lparr>env_step := (\<lambda>es act q_values. Inr ((Suc es, 0, False, stub_info), Suc es))\<rparr>"


section \<open>Verified properties\<close>

subsection \<open>Auxiliary facts\<close>

lemma ebind_Inr_iff: "ebind m f = Inr y \<longleftrightarrow> (\<exists>x. m = Inr x \<and> f x = Inr y)"
  by (cases m) (simp_all add: ebind_def)

subsection \<open>The stub at work\<close>

lemma stub_predict: "predict stub_predictor fs ob = Inr ((1, [1, 3, 2]), fs)"
  by (simp add: predict_def stub_predictor_def ebind_def first_item_def argmax_def)

lemma stub_episode_tuple: "episode_tuple 4 stub_info = Inr stub_tuple"
  by (simp add: episode_tuple_def stub_info_def stub_tuple_def dict_get_def ebind_def)

lemma stub_episode:
  "play_one_episode stub_player stub_predictor False fs es = Some (Inr (stub_tuple, fs, 2))"
  unfolding play_one_episode_def
  apply (simp add: stub_player_def)
  apply (subst episode_loop.simps)
  apply (simp add: stub_predict)
  apply (subst episode_loop.simps)
  apply (simp add: stub_predict stub_episode_tuple)
  done

lemma stub_episode_row: "episode_row k stub_tuple = Inr (stub_row (int k + 1))"
  by (simp add: episode_row_def stub_tuple_def stub_row_def unpack_def ebind_def
      format_aligned_def format_fixed_def subscript_def Let_def)

subsection \<open>The result table of \<open>play_n_episodes\<close>\<close>

lemma episode_row_shape:
  assumes "episode_row k t = Inr row"
  shows "length row = 13 \<and> row ! 0 = PInt (int k + 1)"
  using assms unfolding episode_row_def Let_def
  by (auto simp: ebind_Inr_iff)

lemma episode_row_any_index:
  "episode_row k t = Inr row \<Longrightarrow> \<exists>row'. episode_row k' t = Inr row'"
  unfolding episode_row_def Let_def by (auto simp: ebind_Inr_iff)

text \<open>
  Whatever the loop returns extends the table it started from by one row of 13 cells
  for each pass, numbered in order.
\<close>

lemma play_n_loop_rows:
  "play_n_loop player predfunc render k n fs es acc = Some (Inr (rows, fs', es')) \<Longrightarrow>
   \<exists>new. rows = acc @ new \<and> length new = n \<and> (\<forall>row \<in> set new. length row = 13)
     \<and> (\<forall>i < n. new ! i ! 0 = PInt (int (k + i) + 1))"
proof (induction n arbitrary: k fs es acc)
  case 0
  then show ?case by simp
next
  case (Suc n)
  from Suc.prems obtain t fs1 es1 row where
    ep: "play_one_episode player predfunc render fs es = Some (Inr (t, fs1, es1))"
    and row: "episode_row k t = Inr row"
    and rest: "play_n_loop player predfunc render (Suc k) n fs1 es1 (acc @ [row]) = Some (Inr (rows, fs', es'))"
    by (auto split: option.splits sum.splits)
  from Suc.IH[OF rest] obtain new where
    new: "rows = (acc @ [row]) @ new" "length new = n" "\<forall>r \<in> set new. length r = 13"
      "\<forall>i < n. new ! i ! 0 = PInt (int (Suc k + i) + 1)"
    by blast
  from row have shape: "length row = 13" "row ! 0 = PInt (int k + 1)"
    using episode_row_shape by blast+
  have "\<forall>i < Suc n. (row # new) ! i ! 0 = PInt (int (k + i) + 1)"
  proof (intro allI impI)
    fix i assume "i < Suc n"
    then show "(row # new) ! i ! 0 = PInt (int (k + i) + 1)"
      using new(4) shape(2) by (cases i) auto
  qed
  with new shape show ?case
    by (intro exI[of _ "row # new"]) auto
qed

text \<open>
  The loop returns when every episode does: \<open>I\<close> is a property of the states of
  predictor and player that each episode re-establishes.
\<close>

lemma play_n_loop_returns:
  assumes stub: "\<And>fs es. I fs es \<Longrightarrow> \<exists>t fs1 es1 row.
      play_one_episode player predfunc render fs es = Some (Inr (t, fs1, es1))
      \<and> episode_row 0 t = Inr row \<and> I fs1 es1"
  shows "I fs es \<Longrightarrow>
    \<exists>rows fs' es'. play_n_loop player predfunc render k n fs es acc = Some (Inr (rows, fs', es'))"
proof (induction n arbitrary: k fs es acc)
  case 0
  then show ?case by simp
next
  case (Suc n)
  from stub[OF Suc.prems] obtain t fs1 es1 row where
    ep: "play_one_episode player predfunc render fs es = Some (Inr (t, fs1, es1))"
    and row: "episode_row 0 t = Inr row" and inv: "I fs1 es1"
    by blast
  from row obtain row' where row': "episode_row k t = Inr row'"
    using episode_row_any_index by blast
  from Suc.IH[OF inv, of "Suc k" "acc @ [row']"] ep row' show ?case
    by simp
qed




text \<open>
  C5. When every episode of the player returns a tuple that can be logged and
  tabulated, as with a deterministic stub, \<open>play_n_episodes\<close> returns, the table holds
  \<open>nr\<close> result rows after the header, and the first cell of the \<open>i\<close>-th result row
  (counted from 0) is the integer \<open>i + 1\<close>.
\<close>

theorem play_n_episodes_rows:
  assumes inv: "I fs es"
    and stub: "\<And>fs es. I fs es \<Longrightarrow> \<exists>t fs1 es1 row.
      play_one_episode player predfunc render fs es = Some (Inr (t, fs1, es1))
      \<and> episode_row 0 t = Inr row \<and> I fs1 es1"
  shows "\<exists>rows fs' es'.
      play_n_episodes player predfunc nr render fs es = Some (Inr (rows, fs', es'))
      \<and> length (tl rows) = nat nr
      \<and> (\<forall>i < nat nr. tl rows ! i ! 0 = PInt (int i + 1))"
proof -
  from play_n_loop_returns[of I player predfunc render, OF stub inv]
  obtain rows fs' es' where
    run: "play_n_loop player predfunc render 0 (nat nr) fs es [header_row] = Some (Inr (rows, fs', es'))"
    by blast
  from play_n_loop_rows[OF run] obtain new where
    new: "rows = [header_row] @ new" "length new = nat nr"
      "\<forall>i < nat nr. new ! i ! 0 = PInt (int (0 + i) + 1)"
    by blast
  from run new show ?thesis
    unfolding play_n_episodes_def by auto
qed

theorem play_n_episodes_rows_witness:
  "\<exists>rows fs' es'.
      play_n_episodes stub_player stub_predictor 3 False () 0 = Some (Inr (rows, fs', es'))
      \<and> length (tl rows) = 3
      \<and> tl rows ! 0 ! 0 = PInt 1 \<and> tl rows ! 1 ! 0 = PInt 2 \<and> tl rows ! 2 ! 0 = PInt 3"
proof -
  have stub: "\<And>fs es. True \<Longrightarrow> \<exists>t fs1 es1 row.
      play_one_episode stub_player stub_predictor False fs es = Some (Inr (t, fs1, es1))
      \<and> episode_row 0 t = Inr row \<and> True"
    by (simp add: stub_episode stub_episode_row)
  from play_n_episodes_rows[of "\<lambda>fs es. True" "()" 0 stub_player stub_predictor False 3, OF TrueI stub]
  obtain rows fs' es' where
    r: "play_n_episodes stub_player stub_predictor 3 False () 0 = Some (Inr (rows, fs', es'))"
      "length (tl rows) = nat 3" "\<forall>i < nat 3. tl rows ! i ! 0 = PInt (int i + 1)"
    by blast
  from r(3) have "tl rows ! 0 ! 0 = PInt 1" "tl rows ! 1 ! 0 = PInt 2" "tl rows ! 2 ! 0 = PInt 3"
    by auto
  with r(1,2) show ?thesis by auto
qed

subsection \<open>One episode\<close>

lemma argmax_scan_first_max:
  assumes "length ys = i" "best < i" "ys ! best = bv"
    and "\<forall>j < i. ys ! j \<le> bv" and "\<forall>j < best. ys ! j < bv"
  shows "argmax_scan xs i best bv < length (ys @ xs)
    \<and> (\<forall>j < length (ys @ xs). (ys @ xs) ! j \<le> (ys @ xs) ! argmax_scan xs i best bv)
    \<and> (\<forall>j < argmax_scan xs i best bv. (ys @ xs) ! j < (ys @ xs) ! argmax_scan xs i best bv)"
  using assms
proof (induction xs arbitrary: ys i best bv)
  case Nil
  then show ?case by auto
next
  case (Cons x xs)
  show ?case
  proof (cases "bv < x")
    case True
    have "argmax_scan xs (Suc i) i x < length ((ys @ [x]) @ xs)
      \<and> (\<forall>j < length ((ys @ [x]) @ xs). ((ys @ [x]) @ xs) ! j \<le> ((ys @ [x]) @ xs) ! argmax_scan xs (Suc i) i x)
      \<and> (\<forall>j < argmax_scan xs (Suc i) i x. ((ys @ [x]) @ xs) ! j < ((ys @ [x]) @ xs) ! argmax_scan xs (Suc i) i x)"
    proof (rule Cons.IH)
      show "length (ys @ [x]) = Suc i" using Cons.prems by simp
      show "i < Suc i" by simp
      show "(ys @ [x]) ! i = x" using Cons.prems(1) by (auto simp: nth_append)
      show "\<forall>j<Suc i. (ys @ [x]) ! j \<le> x"
        using Cons.prems True by (auto simp: nth_append less_Suc_eq intro: less_imp_le order_trans)
      show "\<forall>j<i. (ys @ [x]) ! j < x"
        using Cons.prems True by (auto simp: nth_append intro: le_less_trans)
    qed
    with True show ?thesis by simp
  next
    case False
    have "argmax_scan xs (Suc i) best bv < length ((ys @ [x]) @ xs)
      \<and> (\<forall>j < length ((ys @ [x]) @ xs). ((ys @ [x]) @ xs) ! j \<le> ((ys @ [x]) @ xs) ! argmax_scan xs (Suc i) best bv)
      \<and> (\<forall>j < argmax_scan xs (Suc i) best bv. ((ys @ [x]) @ xs) ! j < ((ys @ [x]) @ xs) ! argmax_scan xs (Suc i) best bv)"
    proof (rule Cons.IH)
      show "length (ys @ [x]) = Suc i" using Cons.prems by simp
      show "best < Suc i" using Cons.prems by simp
      show "(ys @ [x]) ! best = bv" using Cons.prems by (simp add: nth_append)
      show "\<forall>j<Suc i. (ys @ [x]) ! j \<le> bv"
        using Cons.prems False by (auto simp: nth_append less_Suc_eq)
      show "\<forall>j<best. (ys @ [x]) ! j < bv"
        using Cons.prems by (auto simp: nth_append)
    qed
    with False show ?thesis by simp
  qed
qed

lemma argmax_greedy:
  assumes "argmax q = Inr act"
  shows "greedy q act \<and> (\<forall>j < act. q ! j < q ! act)"
proof -
  from assms obtain x xs where q: "q = x # xs" and act: "act = argmax_scan xs 1 0 x"
    by (auto simp: argmax_def split: list.splits)
  have "argmax_scan xs 1 0 x < length ([x] @ xs)
    \<and> (\<forall>j < length ([x] @ xs). ([x] @ xs) ! j \<le> ([x] @ xs) ! argmax_scan xs 1 0 x)
    \<and> (\<forall>j < argmax_scan xs 1 0 x. ([x] @ xs) ! j < ([x] @ xs) ! argmax_scan xs 1 0 x)"
    by (rule argmax_scan_first_max) auto
  with q act have lt: "act < length q" and le: "\<forall>j < length q. q ! j \<le> q ! act"
    and first: "\<forall>j < act. q ! j < q ! act"
    by simp_all
  have "\<forall>v \<in> set q. v \<le> q ! act"
  proof
    fix v assume "v \<in> set q"
    then obtain j where "j < length q" "q ! j = v" by (auto simp: in_set_conv_nth)
    with le show "v \<le> q ! act" by blast
  qed
  with lt first show ?thesis by (simp add: greedy_def)
qed


lemma episode_imp_loop:
  assumes "episode player func render fs es ob rs info fs' es'"
  shows "episode_loop player func render fs es ob s =
    Some (case episode_tuple (s + sum_list rs) info of Inl e \<Rightarrow> Inl e | Inr t \<Rightarrow> Inr (t, fs', es'))"
  using assms
proof (induction arbitrary: s rule: episode.induct)
  case (last_step fs ob act q_values fs1 es ob1 r info es1 es2)
  then show ?case
    by (subst episode_loop.simps) simp
next
  case (next_step fs ob act q_values fs1 es ob1 r info es1 es2 rs info' fs' es')
  from next_step.hyps(1,2,3) next_step.IH[of "s + r"] show ?case
    by (subst episode_loop.simps) (simp add: add.assoc)
qed

lemma loop_imp_episode:
  assumes "episode_loop player func render fs es ob s = Some y"
  shows "\<forall>t fs' es'. y = Inr (t, fs', es') \<longrightarrow>
    (\<exists>rs info. episode player func render fs es ob rs info fs' es'
       \<and> episode_tuple (s + sum_list rs) info = Inr t)"
proof (rule episode_loop.raw_induct[where P = "\<lambda>player func render fs es ob s y.
    \<forall>t fs' es'. y = Inr (t, fs', es') \<longrightarrow>
      (\<exists>rs info. episode player func render fs es ob rs info fs' es'
         \<and> episode_tuple (s + sum_list rs) info = Inr t)", OF _ assms], goal_cases)
  case (1 loop player func render fs es ob s y)
  show ?case
  proof (intro allI impI)
    fix t fs' es'
    assume y: "y = Inr (t, fs', es')"
    from 1(2) y obtain act q_values fs1 ob1 r isOver info es1 es2 where
      p: "predict func fs ob = Inr ((act, q_values), fs1)"
      and st: "env_step player es act q_values = Inr ((ob1, r, isOver, info), es1)"
      and rd: "(if render then env_render player es1 else Inr es1) = Inr es2"
      and rest: "(if isOver
                  then Some (case episode_tuple (s + r) info of
                               Inl e \<Rightarrow> Inl e | Inr t \<Rightarrow> Inr (t, fs1, es2))
                  else loop player func render fs1 es2 ob1 (s + r)) = Some (Inr (t, fs', es'))"
      by (auto split: sum.splits prod.splits)
    show "\<exists>rs info. episode player func render fs es ob rs info fs' es'
       \<and> episode_tuple (s + sum_list rs) info = Inr t"
    proof (cases isOver)
      case True
      with rest have tup: "episode_tuple (s + r) info = Inr t" and eq: "fs' = fs1" "es' = es2"
        by (auto split: sum.splits)
      from p st rd True have "episode player func render fs es ob [r] info fs1 es2"
        by (auto intro: episode.last_step)
      with tup eq show ?thesis
        by (intro exI[of _ "[r]"] exI[of _ info]) simp
    next
      case False
      with rest have "loop player func render fs1 es2 ob1 (s + r) = Some (Inr (t, fs', es'))"
        by simp
      from 1(1)[OF this] obtain rs info' where
        ep: "episode player func render fs1 es2 ob1 rs info' fs' es'"
        and tup: "episode_tuple (s + r + sum_list rs) info' = Inr t"
        by blast
      from p st rd False ep have "episode player func render fs es ob (r # rs) info' fs' es'"
        by (auto intro: episode.next_step)
      with tup show ?thesis
        by (intro exI[of _ "r # rs"] exI[of _ info']) (simp add: add.assoc)
    qed
  qed
qed

lemma episode_tuple_Inr_iff:
  "episode_tuple sum_r info = Inr t \<longleftrightarrow>
    (\<exists>filename distError loc target_loc spacing start_pos.
       info ''filename'' = Some filename \<and> info ''distError'' = Some distError
     \<and> info ''loc'' = Some loc \<and> info ''target_loc'' = Some target_loc
     \<and> info ''spacing'' = Some spacing \<and> info ''start_pos'' = Some start_pos
     \<and> t = [PNum sum_r, filename, distError, loc, target_loc, spacing, start_pos])"
  unfolding episode_tuple_def
  by (auto simp: ebind_Inr_iff dict_get_def split: option.splits)

lemma predict_greedy:
  assumes "predict func fs ob = Inr ((act, q_values), fs1)"
  shows "greedy q_values act \<and> (\<forall>j < act. q_values ! j < q_values ! act)"
proof -
  from assms have "argmax q_values = Inr act"
    unfolding predict_def by (auto simp: ebind_Inr_iff)
  then show ?thesis by (rule argmax_greedy)
qed


lemma predict_Inr_iff:
  "predict func fs ob = Inr ((act, q_values), fs1) \<longleftrightarrow>
     (\<exists>outputs. func fs [ob] = Inr (outputs, fs1) \<and> outputs \<noteq> [] \<and> hd outputs \<noteq> []
        \<and> q_values = hd (hd outputs) \<and> argmax q_values = Inr act)"
proof (cases "func fs [ob]")
  case (Inl e)
  then show ?thesis by (simp add: predict_def ebind_def)
next
  case (Inr p)
  obtain outputs fs' where p: "p = (outputs, fs')" by (cases p)
  show ?thesis
  proof (cases outputs)
    case Nil
    with Inr p show ?thesis by (simp add: predict_def ebind_def first_item_def)
  next
    case (Cons batch rest)
    show ?thesis
    proof (cases batch)
      case Nil
      with Inr p Cons show ?thesis by (simp add: predict_def ebind_def first_item_def)
    next
      case (Cons row rows)
      have "ebind (argmax row) (\<lambda>a. Inr ((a, row), fs')) = Inr ((act, q_values), fs1)
        \<longleftrightarrow> fs' = fs1 \<and> q_values = row \<and> argmax q_values = Inr act"
        by (cases "argmax row") (auto simp: ebind_def)
      with Inr p \<open>outputs = batch # rest\<close> Cons show ?thesis
        by (simp add: predict_def ebind_def first_item_def)
    qed
  qed
qed

lemma play_one_episode_Inr_iff:
  "play_one_episode player func render fs es = Some (Inr (t, fs', es')) \<longleftrightarrow>
     (\<exists>ob es0 rs info. env_reset player es = Inr (ob, es0)
        \<and> episode player func render fs es0 ob rs info fs' es'
        \<and> episode_tuple (sum_list rs) info = Inr t)"
proof
  assume run: "play_one_episode player func render fs es = Some (Inr (t, fs', es'))"
  then obtain ob es0 where reset: "env_reset player es = Inr (ob, es0)"
    and loop: "episode_loop player func render fs es0 ob 0 = Some (Inr (t, fs', es'))"
    unfolding play_one_episode_def by (auto split: sum.splits)
  from loop_imp_episode[OF loop] obtain rs info where
    ep: "episode player func render fs es0 ob rs info fs' es'"
    and tup: "episode_tuple (0 + sum_list rs) info = Inr t"
    by blast
  from tup have "episode_tuple (sum_list rs) info = Inr t" by simp
  with reset ep show "\<exists>ob es0 rs info. env_reset player es = Inr (ob, es0)
        \<and> episode player func render fs es0 ob rs info fs' es'
        \<and> episode_tuple (sum_list rs) info = Inr t"
    by blast
next
  assume "\<exists>ob es0 rs info. env_reset player es = Inr (ob, es0)
        \<and> episode player func render fs es0 ob rs info fs' es'
        \<and> episode_tuple (sum_list rs) info = Inr t"
  then obtain ob es0 rs info where reset: "env_reset player es = Inr (ob, es0)"
    and ep: "episode player func render fs es0 ob rs info fs' es'"
    and tup: "episode_tuple (sum_list rs) info = Inr t"
    by blast
  from episode_imp_loop[OF ep, of 0] tup reset
  show "play_one_episode player func render fs es = Some (Inr (t, fs', es'))"
    unfolding play_one_episode_def by simp
qed

text \<open>
  C4. \<open>play_one_episode\<close> returns a tuple exactly when the episode described by the
  specification exists: after the reset, steps are taken with the predicted actions
  until the first step that reports completion, and no step raises. The tuple then
  holds the sum of the rewards of these steps, followed by the entries \<open>filename\<close>,
  \<open>distError\<close>, \<open>loc\<close>, \<open>target_loc\<close>, \<open>spacing\<close> and \<open>start_pos\<close> of the info dictionary
  of the last step. Every predicted action is computed from the first row of the first
  output of the predictor alone: it is greedy for this row, and it is the first such
  index.
\<close>

theorem play_one_episode_greedy_rollout:
  "(play_one_episode player func render fs es = Some (Inr (t, fs', es')) \<longleftrightarrow>
      (\<exists>ob es0 rs info filename distError loc target_loc spacing start_pos.
         env_reset player es = Inr (ob, es0)
       \<and> episode player func render fs es0 ob rs info fs' es'
       \<and> info ''filename'' = Some filename \<and> info ''distError'' = Some distError
       \<and> info ''loc'' = Some loc \<and> info ''target_loc'' = Some target_loc
       \<and> info ''spacing'' = Some spacing \<and> info ''start_pos'' = Some start_pos
       \<and> t = [PNum (sum_list rs), filename, distError, loc, target_loc, spacing, start_pos]))
   \<and> (\<forall>fs0 ob act q_values fs1. predict func fs0 ob = Inr ((act, q_values), fs1) \<longrightarrow>
        (\<exists>outputs. func fs0 [ob] = Inr (outputs, fs1) \<and> outputs \<noteq> [] \<and> hd outputs \<noteq> []
           \<and> q_values = hd (hd outputs))
        \<and> greedy q_values act \<and> (\<forall>j < act. q_values ! j < q_values ! act))"
proof (intro conjI allI impI iffI)
  assume "play_one_episode player func render fs es = Some (Inr (t, fs', es'))"
  then obtain ob es0 rs info where reset: "env_reset player es = Inr (ob, es0)"
    and ep: "episode player func render fs es0 ob rs info fs' es'"
    and tup: "episode_tuple (sum_list rs) info = Inr t"
    unfolding play_one_episode_Inr_iff by blast
  from tup obtain filename distError loc target_loc spacing start_pos where
    "info ''filename'' = Some filename" "info ''distError'' = Some distError"
    "info ''loc'' = Some loc" "info ''target_loc'' = Some target_loc"
    "info ''spacing'' = Some spacing" "info ''start_pos'' = Some start_pos"
    "t = [PNum (sum_list rs), filename, distError, loc, target_loc, spacing, start_pos]"
    unfolding episode_tuple_Inr_iff by blast
  with reset ep show "\<exists>ob es0 rs info filename distError loc target_loc spacing start_pos.
         env_reset player es = Inr (ob, es0)
       \<and> episode player func render fs es0 ob rs info fs' es'
       \<and> info ''filename'' = Some filename \<and> info ''distError'' = Some distError
       \<and> info ''loc'' = Some loc \<and> info ''target_loc'' = Some target_loc
       \<and> info ''spacing'' = Some spacing \<and> info ''start_pos'' = Some start_pos
       \<and> t = [PNum (sum_list rs), filename, distError, loc, target_loc, spacing, start_pos]"
    by (intro exI conjI)
next
  assume "\<exists>ob es0 rs info filename distError loc target_loc spacing start_pos.
         env_reset player es = Inr (ob, es0)
       \<and> episode player func render fs es0 ob rs info fs' es'
       \<and> info ''filename'' = Some filename \<and> info ''distError'' = Some distError
       \<and> info ''loc'' = Some loc \<and> info ''target_loc'' = Some target_loc
       \<and> info ''spacing'' = Some spacing \<and> info ''start_pos'' = Some start_pos
       \<and> t = [PNum (sum_list rs), filename, distError, loc, target_loc, spacing, start_pos]"
  then obtain ob es0 rs info filename distError loc target_loc spacing start_pos where
    reset: "env_reset player es = Inr (ob, es0)"
    and ep: "episode player func render fs es0 ob rs info fs' es'"
    and info: "info ''filename'' = Some filename" "info ''distError'' = Some distError"
      "info ''loc'' = Some loc" "info ''target_loc'' = Some target_loc"
      "info ''spacing'' = Some spacing" "info ''start_pos'' = Some start_pos"
      "t = [PNum (sum_list rs), filename, distError, loc, target_loc, spacing, start_pos]"
    by (elim exE conjE)
  from info have "episode_tuple (sum_list rs) info = Inr t"
    unfolding episode_tuple_Inr_iff by (intro exI conjI)
  with reset ep show "play_one_episode player func render fs es = Some (Inr (t, fs', es'))"
    unfolding play_one_episode_Inr_iff by (intro exI conjI)
next
  fix fs0 ob act q_values fs1
  assume p: "predict func fs0 ob = Inr ((act, q_values), fs1)"
  then show "\<exists>outputs. func fs0 [ob] = Inr (outputs, fs1) \<and> outputs \<noteq> [] \<and> hd outputs \<noteq> []
           \<and> q_values = hd (hd outputs)"
    unfolding predict_Inr_iff by blast
  from predict_greedy[OF p] show "greedy q_values act"
    by (rule conjunct1)
  fix j assume "j < act"
  with predict_greedy[OF p] show "q_values ! j < q_values ! act"
    by simp
qed


theorem play_one_episode_greedy_rollout_witness:
  "play_one_episode stub_player stub_predictor False () 7 = Some (Inr (stub_tuple, (), 2))
   \<and> (\<exists>rs info. episode stub_player stub_predictor False () 0 0 rs info () 2
         \<and> sum_list rs = 4 \<and> info ''filename'' = Some (PStr ''case_07''))
   \<and> greedy [1, 3, 2] 1"
proof -
  note spec = play_one_episode_greedy_rollout[of stub_player stub_predictor False "()" 7 stub_tuple "()" 2]
  note run = stub_episode[of "()" 7]
  from spec[THEN conjunct1, THEN iffD1, OF run]
  obtain ob es0 rs info filename distError loc target_loc spacing start_pos
    where r: "env_reset stub_player 7 = Inr (ob, es0)"
      "episode stub_player stub_predictor False () es0 ob rs info () 2"
      "info ''filename'' = Some filename"
      "stub_tuple = [PNum (sum_list rs), filename, distError, loc, target_loc, spacing, start_pos]"
    by (elim exE conjE)
  from r(1) have start: "ob = 0" "es0 = 0" by (simp_all add: stub_player_def)
  from r(4) have vals: "sum_list rs = 4" "filename = PStr ''case_07''"
    by (simp_all add: stub_tuple_def)
  from spec[THEN conjunct2, rule_format, OF stub_predict[of "()" 0]]
  have g: "greedy [1, 3, 2] 1" by (elim conjE)
  from r(2,3) start vals have "\<exists>rs info. episode stub_player stub_predictor False () 0 0 rs info () 2
         \<and> sum_list rs = 4 \<and> info ''filename'' = Some (PStr ''case_07'')"
    by (intro exI[of _ rs] exI[of _ info]) simp
  with run g show ?thesis by (intro conjI)
qed

subsection \<open>The worker thread\<close>

lemma episode_tuple_length: "episode_tuple s info = Inr t \<Longrightarrow> length t = 7"
  unfolding episode_tuple_Inr_iff by auto

lemma play_one_episode_length:
  assumes "play_one_episode player func render fs es = Some (Inr (t, fs', es'))"
  shows "length t = 7"
proof -
  from assms obtain rs info where "episode_tuple (sum_list rs) info = Inr t"
    unfolding play_one_episode_Inr_iff by blast
  then show ?thesis by (rule episode_tuple_length)
qed

lemma worker_loop_once:
  "worker_loop player func obs c fs es q q_dist =
     (if obs c then Some (Returned, q, q_dist)
      else
        (case play_one_episode player (Worker_func obs func) False (Suc c, fs) es of
           None \<Rightarrow> None
         | Some (Inl e) \<Rightarrow> Some (if is_RuntimeError e then Returned else Raised e, q, q_dist)
         | Some (Inr r) \<Rightarrow> Some (Raised ValueError, q, q_dist)))"
proof (cases "play_one_episode player (Worker_func obs func) False (Suc c, fs) es")
  case None
  then show ?thesis by (subst worker_loop.simps) simp
next
  case (Some y)
  show ?thesis
  proof (cases y)
    case (Inl e)
    with Some show ?thesis by (subst worker_loop.simps) (simp add: except_RuntimeError_def)
  next
    case (Inr r)
    obtain t c1 fs1 es1 where r: "r = (t, (c1, fs1), es1)" by (cases r) auto
    with Some Inr have "play_one_episode player (Worker_func obs func) False (Suc c, fs) es
        = Some (Inr (t, (c1, fs1), es1))"
      by simp
    then have "length t = 7" by (rule play_one_episode_length)
    then have "unpack 4 t = Inl ValueError" by (simp add: unpack_def)
    with Some Inr r show ?thesis
      by (subst worker_loop.simps) (simp add: except_RuntimeError_def)
  qed
qed


lemma Worker_func_stopped: "obs c \<Longrightarrow> Worker_func obs func (c, fs) batch = Inl (RuntimeError ''stopped!'')"
  by (simp add: Worker_func_def)

lemma Worker_func_running:
  "\<not> obs c \<Longrightarrow> Worker_func obs func (c, fs) batch =
     ebind (func fs batch) (\<lambda>(outputs, fs'). Inr (outputs, (Suc c, fs')))"
  by (simp add: Worker_func_def)

lemma predict_Worker_func:
  assumes "predict (Worker_func obs func) (c, fs) ob = Inr ((act, q_values), st)"
  shows "\<not> obs c \<and> (\<exists>fs1. st = (Suc c, fs1))"
proof -
  from assms obtain outputs where w: "Worker_func obs func (c, fs) [ob] = Inr (outputs, st)"
    unfolding predict_Inr_iff by blast
  then have "\<not> obs c" by (auto simp: Worker_func_def)
  with w show ?thesis
    by (auto simp: Worker_func_running ebind_Inr_iff)
qed

text \<open>Once the flag stays set, an episode played through \<open>Worker_func\<close> ends.\<close>

lemma episode_loop_stops:
  assumes "\<forall>c \<ge> n. obs c"
  shows "\<exists>y. episode_loop player (Worker_func obs func) render (c, fs) es ob s = Some y"
proof (induction "n - c" arbitrary: c fs es ob s rule: less_induct)
  case less
  show ?case
  proof (cases "predict (Worker_func obs func) (c, fs) ob")
    case (Inl e)
    then show ?thesis by (subst episode_loop.simps) simp
  next
    case (Inr p)
    obtain act q_values st where p: "p = ((act, q_values), st)" by (cases p) auto
    from Inr p have "predict (Worker_func obs func) (c, fs) ob = Inr ((act, q_values), st)"
      by simp
    from predict_Worker_func[OF this] obtain fs1 where run: "\<not> obs c" and st: "st = (Suc c, fs1)"
      by blast
    from run assms have "c < n" by (meson not_le)
    show ?thesis
    proof (cases "env_step player es act q_values")
      case (Inl e)
      with Inr p show ?thesis by (subst episode_loop.simps) simp
    next
      case step: (Inr x)
      obtain ob1 r isOver info es1 where x: "x = ((ob1, r, isOver, info), es1)"
        by (cases x) auto
      show ?thesis
      proof (cases "if render then env_render player es1 else Inr es1")
        case (Inl e)
        with Inr p step x show ?thesis by (subst episode_loop.simps) simp
      next
        case rd: (Inr es2)
        show ?thesis
        proof (cases isOver)
          case True
          with Inr p step x rd show ?thesis by (subst episode_loop.simps) simp
        next
          case False
          from \<open>c < n\<close> have "n - Suc c < n - c" by simp
          from less.hyps[OF this] obtain y where
            "episode_loop player (Worker_func obs func) render (Suc c, fs1) es2 ob1 (s + r) = Some y"
            by blast
          with Inr p st step x rd False show ?thesis by (subst episode_loop.simps) simp
        qed
      qed
    qed
  qed
qed

lemma worker_loop_finishes:
  assumes "\<forall>c \<ge> n. obs c"
  shows "\<exists>x. worker_loop player func obs c fs es q q_dist = Some (x, q, q_dist)"
proof -
  have "\<exists>y. play_one_episode player (Worker_func obs func) False (Suc c, fs) es = Some y"
  proof (cases "env_reset player es")
    case (Inl e)
    then show ?thesis by (simp add: play_one_episode_def)
  next
    case (Inr p)
    obtain ob es0 where "p = (ob, es0)" by (cases p)
    with Inr episode_loop_stops[OF assms, of player func False "Suc c" fs es0 ob 0]
    show ?thesis by (simp add: play_one_episode_def)
  qed
  then obtain y where y: "play_one_episode player (Worker_func obs func) False (Suc c, fs) es = Some y"
    by blast
  show ?thesis
    by (cases y) (simp_all add: worker_loop_once y)
qed

lemma worker_loop_puts_nothing:
  "worker_loop player func obs c fs es q q_dist = Some (x, q', q_dist') \<Longrightarrow> q' = q \<and> q_dist' = q_dist"
  by (simp add: worker_loop_once split: if_splits option.splits sum.splits)

lemma Worker_run_puts_nothing:
  "Worker_run player get_player_fn files_list w func fs obs = Some (x, q, q_dist) \<Longrightarrow> q = [] \<and> q_dist = []"
  unfolding Worker_run_def
  by (cases "get_player_fn w False files_list") (auto dest: worker_loop_puts_nothing)

lemma Worker_run_finishes:
  assumes "\<forall>c \<ge> n. obs c"
  shows "\<exists>x. Worker_run player get_player_fn files_list w func fs obs = Some (x, [], [])"
  unfolding Worker_run_def
  using worker_loop_finishes[OF assms, of player func 0 fs _ "[]" "[]"]
  by (cases "get_player_fn w False files_list") simp_all

subsection \<open>The calling thread and the workers together\<close>

lemma eval_main_empty:
  "eval_main nr_eval [] [] = (if nr_eval \<le> 0 then Some (Inr (0, 0, 0, 0)) else None)"
proof (cases "nat nr_eval")
  case 0
  then show ?thesis by (simp add: eval_main_def summary_def count_def)
next
  case (Suc n)
  then show ?thesis by (simp add: eval_main_def)
qed

lemma those_map_Some:
  assumes "\<forall>x \<in> set xs. \<exists>y. f x = Some y \<and> P y"
  shows "\<exists>ys. those (map f xs) = Some ys \<and> (\<forall>y \<in> set ys. P y)"
  using assms by (induction xs) auto

lemma those_map_results:
  "those (map f xs) = Some ys \<Longrightarrow> y \<in> set ys \<Longrightarrow> \<exists>x \<in> set xs. f x = Some y"
proof (induction xs arbitrary: ys)
  case Nil
  then show ?case by simp
next
  case (Cons a xs)
  from Cons.prems(1) obtain b bs where b: "f a = Some b" and bs: "those (map f xs) = Some bs"
    and ys: "ys = b # bs"
    by (auto split: option.splits)
  show ?case
  proof (cases "y = b")
    case True
    with b show ?thesis by simp
  next
    case False
    with Cons.prems(2) ys have "y \<in> set bs" by simp
    from Cons.IH[OF bs this] show ?thesis by auto
  qed
qed

lemma concat_all_empty: "\<forall>y \<in> set ys. g y = [] \<Longrightarrow> concat (map g ys) = []"
  by (induction ys) auto

text \<open>No worker ever puts an item, so the calling thread finds both queues empty.\<close>

lemma eval_with_funcs_joined:
  "eval_with_funcs player predictors nr_eval get_player_fn files_list obs =
     (case those (map (Worker_thread player get_player_fn files_list obs)
                      (enumerate 0 predictors)) of
        None \<Rightarrow> None
      | Some threads \<Rightarrow> eval_main nr_eval [] [])"
proof (cases "those (map (Worker_thread player get_player_fn files_list obs)
                      (enumerate 0 predictors))")
  case None
  then show ?thesis by (simp add: eval_with_funcs_def)
next
  case (Some threads)
  have empty: "\<forall>y \<in> set threads. \<exists>x. y = (x, [], [])"
  proof
    fix y assume "y \<in> set threads"
    from those_map_results[OF Some this] obtain p where
      "p \<in> set (enumerate 0 predictors)"
      and p: "Worker_thread player get_player_fn files_list obs p = Some y"
      by blast
    obtain w func fs where "p = (w, (func, fs))" by (cases p) auto
    with p have run: "Worker_run player get_player_fn files_list w func fs (obs w) = Some y"
      by (simp add: Worker_thread_def)
    obtain x q q_dist where y: "y = (x, q, q_dist)" by (cases y) auto
    from Worker_run_puts_nothing[OF run[unfolded y]] y show "\<exists>x. y = (x, [], [])"
      by simp
  qed
  have q: "concat (map (\<lambda>(x, q, q_dist). q) threads) = []"
    by (rule concat_all_empty) (use empty in auto)
  have q_dist: "concat (map (\<lambda>(x, q, q_dist). q_dist) threads) = []"
    by (rule concat_all_empty) (use empty in auto)
  show ?thesis
    by (simp only: eval_with_funcs_def Some option.case q q_dist)
qed

lemma eval_with_funcs_blocks:
  "0 < nr_eval \<Longrightarrow> eval_with_funcs player predictors nr_eval get_player_fn files_list obs = None"
  by (simp add: eval_with_funcs_joined eval_main_empty split: option.splits)

text \<open>
  C3. With \<open>nr_eval = 0\<close> the calling thread sets the stop flag at once (line 139), so
  every worker reads the flag as set from some reading on. Then every worker ends, the
  calling thread is not blocked, and the result is \<open>(0, 0, 0, 0)\<close>: no worker has put
  anything on a queue.
\<close>

theorem eval_with_funcs_zero:
  assumes "\<forall>w < length predictors. \<exists>n. \<forall>c \<ge> n. obs w c"
  shows "eval_with_funcs player predictors 0 get_player_fn files_list obs = Some (Inr (0, 0, 0, 0))"
proof -
  have "\<forall>p \<in> set (enumerate 0 predictors).
          \<exists>y. Worker_thread player get_player_fn files_list obs p = Some y \<and> True"
  proof
    fix p assume p: "p \<in> set (enumerate 0 predictors)"
    obtain w func fs where eq: "p = (w, (func, fs))" by (cases p) auto
    with p have "w < length predictors" by (simp add: in_set_enumerate_eq)
    with assms obtain n where "\<forall>c \<ge> n. obs w c" by blast
    from Worker_run_finishes[OF this, of player get_player_fn files_list w func fs] eq
    show "\<exists>y. Worker_thread player get_player_fn files_list obs p = Some y \<and> True"
      by (auto simp: Worker_thread_def)
  qed
  from those_map_Some[OF this] obtain threads where
    "those (map (Worker_thread player get_player_fn files_list obs) (enumerate 0 predictors))
       = Some threads"
    by blast
  then show ?thesis
    by (simp add: eval_with_funcs_joined eval_main_empty)
qed

theorem eval_with_funcs_zero_witness:
  "eval_with_funcs endless_player [(stub_predictor, ()), (stub_predictor, ())] 0 stub_factory () late_stop
     = Some (Inr (0, 0, 0, 0))"
proof (rule eval_with_funcs_zero)
  show "\<forall>w < length [(stub_predictor, ()), (stub_predictor, ())]. \<exists>n. \<forall>c \<ge> n. late_stop w c"
    by (auto simp: late_stop_def stopped_from_def)
qed

subsection \<open>Concrete runs of a worker\<close>

lemma stub_predict_worker:
  "\<not> obs c \<Longrightarrow> predict (Worker_func obs stub_predictor) (c, ()) ob = Inr ((1, [1, 3, 2]), (Suc c, ()))"
  by (simp add: predict_def Worker_func_def stub_predictor_def ebind_def first_item_def argmax_def)

lemma stub_episode_worker:
  "play_one_episode stub_player (Worker_func never_stopped stub_predictor) False (c, ()) es
     = Some (Inr (stub_tuple, (Suc (Suc c), ()), 2))"
  unfolding play_one_episode_def
  apply (simp add: stub_player_def)
  apply (subst episode_loop.simps)
  apply (simp add: stub_predict_worker never_stopped_def)
  apply (subst episode_loop.simps)
  apply (simp add: stub_predict_worker never_stopped_def stub_episode_tuple)
  done

text \<open>
  C1. The stub player completes its first episode after two steps, and
  \<open>play_one_episode\<close> returns a tuple of seven items. The worker unpacks it into four
  names (line 111), which raises \<^verbatim>\<open>ValueError\<close>: the thread ends with that exception and
  has put neither the score nor the distance error on a queue. The calling thread,
  waiting for one result, waits for ever.
\<close>

theorem Worker_run_unpack_fails:
  "play_one_episode stub_player (Worker_func never_stopped stub_predictor) False (1, ()) 0
     = Some (Inr (stub_tuple, (3, ()), 2))
   \<and> length stub_tuple = 7
   \<and> Worker_run stub_player stub_factory () 0 stub_predictor () never_stopped
     = Some (Raised ValueError, [], [])
   \<and> eval_with_funcs stub_player [(stub_predictor, ())] 1 stub_factory () no_stop = None"
proof (intro conjI)
  show "play_one_episode stub_player (Worker_func never_stopped stub_predictor) False (1, ()) 0
     = Some (Inr (stub_tuple, (3, ()), 2))"
    using stub_episode_worker[of 1 0] by (simp add: numeral_3_eq_3)
  show "length stub_tuple = 7" by (simp add: stub_tuple_def)
  show "Worker_run stub_player stub_factory () 0 stub_predictor () never_stopped
     = Some (Raised ValueError, [], [])"
    by (simp add: Worker_run_def stub_factory_def worker_loop_once stub_episode_worker never_stopped_def[THEN fun_cong])
  show "eval_with_funcs stub_player [(stub_predictor, ())] 1 stub_factory () no_stop = None"
    by (rule eval_with_funcs_blocks) simp
qed

subsection \<open>Exceptions in a worker\<close>

lemma episode_loop_predict_raises:
  "predict func fs ob = Inl e \<Longrightarrow> episode_loop player func render fs es ob s = Some (Inl e)"
  by (subst episode_loop.simps) simp

lemma episode_loop_step_raises:
  "predict func fs ob = Inr ((act, q_values), fs1) \<Longrightarrow> env_step player es act q_values = Inl e \<Longrightarrow>
   episode_loop player func render fs es ob s = Some (Inl e)"
  by (subst episode_loop.simps) simp

lemma predict_raises: "func fs [ob] = Inl e \<Longrightarrow> predict func fs ob = Inl e"
  by (simp add: predict_def ebind_def)

text \<open>
  C7, as stated, fails: the \<^verbatim>\<open>step\<close> of this player raises a \<^verbatim>\<open>RuntimeError\<close> of its
  own while the stop flag is never set, and the worker catches it: the thread returns
  as if it had been stopped.
\<close>

theorem crashing_player_caught:
  "env_step crashing_player 0 1 [1, 3, 2] = Inl (RuntimeError ''simulator crashed'')
   \<and> Worker_run crashing_player stub_factory () 0 stub_predictor () never_stopped
       = Some (Returned, [], [])"
proof
  show "env_step crashing_player 0 1 [1, 3, 2] = Inl (RuntimeError ''simulator crashed'')"
    by (simp add: crashing_player_def)
  have "play_one_episode crashing_player (Worker_func never_stopped stub_predictor) False (1, ()) 0
      = Some (Inl (RuntimeError ''simulator crashed''))"
    unfolding play_one_episode_def
    by (simp add: crashing_player_def stub_player_def
        episode_loop_step_raises[OF stub_predict_worker] never_stopped_def)
  then show "Worker_run crashing_player stub_factory () 0 stub_predictor () never_stopped
       = Some (Returned, [], [])"
    by (simp add: Worker_run_def stub_factory_def worker_loop_once never_stopped_def[THEN fun_cong])
qed

text \<open>
  C7, amended. \<open>Worker_func\<close> raises \<^verbatim>\<open>RuntimeError("stopped!")\<close> when it reads the flag
  as set, and passes on what the predictor raises. The episode loop has no handler: an
  exception of the prediction or of \<^verbatim>\<open>step\<close> leaves it unchanged. At the top of the run
  loop an exception that left the episode ends the thread: cleanly when it is a
  \<^verbatim>\<open>RuntimeError\<close>, whoever raised it, and as an uncaught exception otherwise; so no
  \<^verbatim>\<open>RuntimeError\<close> ever leaves the loop.
\<close>

theorem worker_exceptions:
  "(obs c \<longrightarrow> Worker_func obs func (c, fs) batch = Inl (RuntimeError ''stopped!''))
   \<and> (\<not> obs c \<and> func fs batch = Inl e \<longrightarrow> Worker_func obs func (c, fs) batch = Inl e)
   \<and> (predict (Worker_func obs func) (c, fs) ob = Inl e \<longrightarrow>
        episode_loop player (Worker_func obs func) render (c, fs) es ob s = Some (Inl e))
   \<and> (predict (Worker_func obs func) (c, fs) ob = Inr ((act, q_values), st)
        \<and> env_step player es act q_values = Inl e \<longrightarrow>
        episode_loop player (Worker_func obs func) render (c, fs) es ob s = Some (Inl e))
   \<and> (\<not> obs c \<and> play_one_episode player (Worker_func obs func) False (Suc c, fs) es = Some (Inl e) \<longrightarrow>
        worker_loop player func obs c fs es q q_dist
          = Some (if is_RuntimeError e then Returned else Raised e, q, q_dist))
   \<and> (worker_loop player func obs c fs es q q_dist = Some (Raised e, q', q_dist') \<longrightarrow>
        \<not> is_RuntimeError e)"
proof (intro conjI impI)
  assume "obs c"
  then show "Worker_func obs func (c, fs) batch = Inl (RuntimeError ''stopped!'')"
    by (rule Worker_func_stopped)
next
  assume "\<not> obs c \<and> func fs batch = Inl e"
  then show "Worker_func obs func (c, fs) batch = Inl e"
    by (simp add: Worker_func_running ebind_def)
next
  assume "predict (Worker_func obs func) (c, fs) ob = Inl e"
  then show "episode_loop player (Worker_func obs func) render (c, fs) es ob s = Some (Inl e)"
    by (rule episode_loop_predict_raises)
next
  assume "predict (Worker_func obs func) (c, fs) ob = Inr ((act, q_values), st)
        \<and> env_step player es act q_values = Inl e"
  then show "episode_loop player (Worker_func obs func) render (c, fs) es ob s = Some (Inl e)"
    using episode_loop_step_raises by (elim conjE)
next
  assume "\<not> obs c \<and> play_one_episode player (Worker_func obs func) False (Suc c, fs) es = Some (Inl e)"
  then show "worker_loop player func obs c fs es q q_dist
          = Some (if is_RuntimeError e then Returned else Raised e, q, q_dist)"
    by (simp add: worker_loop_once)
next
  assume "worker_loop player func obs c fs es q q_dist = Some (Raised e, q', q_dist')"
  then show "\<not> is_RuntimeError e"
    by (auto simp: worker_loop_once split: if_splits option.splits sum.splits)
qed

theorem worker_exceptions_witness:
  "Worker_func (stopped_from 2) stub_predictor (2, ()) [1] = Inl (RuntimeError ''stopped!'')
   \<and> worker_loop stub_player stub_predictor (stopped_from 2) 0 () 0 [] [] = Some (Returned, [], [])
   \<and> worker_loop failing_player stub_predictor never_stopped 0 () 0 [] []
       = Some (Raised (OtherError ''IOError''), [], [])"
proof (intro conjI)
  have "stopped_from 2 2" by (simp add: stopped_from_def)
  from worker_exceptions[where obs = "stopped_from 2" and c = 2, THEN conjunct1, THEN mp, OF this]
  show "Worker_func (stopped_from 2) stub_predictor (2, ()) [1] = Inl (RuntimeError ''stopped!'')" .
next
  have p1: "predict (Worker_func (stopped_from 2) stub_predictor) (Suc 0, ()) 0
      = Inr ((1, [1, 3, 2]), (Suc (Suc 0), ()))"
    by (rule stub_predict_worker) (simp add: stopped_from_def)
  have p2: "\<And>ob. predict (Worker_func (stopped_from 2) stub_predictor) (Suc (Suc 0), ()) ob
      = Inl (RuntimeError ''stopped!'')"
    by (simp add: predict_def Worker_func_def stopped_from_def ebind_def)
  have ep: "play_one_episode stub_player (Worker_func (stopped_from 2) stub_predictor) False (Suc 0, ()) 0
      = Some (Inl (RuntimeError ''stopped!''))"
    unfolding play_one_episode_def
    apply (simp add: stub_player_def)
    apply (subst episode_loop.simps)
    apply (simp add: p1)
    apply (subst episode_loop.simps)
    apply (simp add: p2)
    done
  have run: "\<not> stopped_from 2 0" by (simp add: stopped_from_def)
  from worker_exceptions[where obs = "stopped_from 2" and c = 0, THEN conjunct2, THEN conjunct2,
      THEN conjunct2, THEN conjunct2, THEN conjunct1, THEN mp, OF conjI[OF run ep], of "[]" "[]"]
  show "worker_loop stub_player stub_predictor (stopped_from 2) 0 () 0 [] [] = Some (Returned, [], [])"
    by simp
next
  have ep: "play_one_episode failing_player (Worker_func never_stopped stub_predictor) False (Suc 0, ()) 0
      = Some (Inl (OtherError ''IOError''))"
    unfolding play_one_episode_def
    by (simp add: failing_player_def stub_player_def
        episode_loop_step_raises[OF stub_predict_worker] never_stopped_def)
  have run: "\<not> never_stopped 0" by (simp add: never_stopped_def)
  from worker_exceptions[where obs = never_stopped and c = 0, THEN conjunct2, THEN conjunct2,
      THEN conjunct2, THEN conjunct2, THEN conjunct1, THEN mp, OF conjI[OF run ep], of "[]" "[]"]
  show "worker_loop failing_player stub_predictor never_stopped 0 () 0 [] []
       = Some (Raised (OtherError ''IOError''), [], [])"
    by simp
qed

subsection \<open>The statistics returned by the calling thread\<close>



lemma collect_blocks:
  "length q < n \<or> length q_dist < n \<Longrightarrow> collect n q q_dist stat dist_stat = None"
proof (induction n arbitrary: q q_dist stat dist_stat)
  case 0
  then show ?case by simp
next
  case (Suc n)
  then show ?case by (cases q; cases q_dist) auto
qed







subsection \<open>The episode budget of the callback\<close>

















subsection \<open>The callback and the evaluation it runs\<close>















subsection \<open>The budget along a run of triggers\<close>






end
